theory Spec2Isabelle
  imports Complex_Main "HOL-Library.Sublist"
begin

section \<open>Silence removal: the worker of CutZero1.py\<close>

text \<open>
  The development embeds \<open>SilenceRemover.run\<close> of \<open>src/CutZero1.py\<close>.
  Python floats are reals. Sums, differences and products are exact, so a result can differ
  from the double the code computes in its last bits. The one quotient that decides a count,
  \<open>duration / chunk_duration\<close>, is not computed by the model: it is a parameter, so that
  what is proved holds however that quotient is rounded.
\<close>

subsection \<open>Segment building (lines 71 to 88)\<close>

type_synonym segment = "real \<times> real"

text \<open>
  The loop over \<open>nonsilent_chunks[1:]\<close>. Its state is \<open>start_time\<close>, \<open>prev_time\<close> and
  the list \<open>clips\<close>; a clip \<open>media.subclip(a, b)\<close> is recorded as the pair \<open>(a, b)\<close>.
  The empty list is the exit of the loop, where the last clip is appended.
\<close>

definition padded :: "real \<Rightarrow> real \<Rightarrow> real \<Rightarrow> real \<Rightarrow> segment" where
  "padded c d start_time prev_time = (max 0 (start_time - c), min d (prev_time + c))"

fun segment_loop :: "real \<Rightarrow> real \<Rightarrow> real \<Rightarrow> real \<Rightarrow> real list \<Rightarrow> segment list \<Rightarrow> segment list" where
  "segment_loop c d start_time prev_time [] clips = clips @ [padded c d start_time prev_time]"
| "segment_loop c d start_time prev_time (t # ts) clips =
     (if t - prev_time > c * (3 / 2)
      then segment_loop c d t t ts (clips @ [padded c d start_time prev_time])
      else segment_loop c d start_time t ts clips)"

datatype exn =
    NoAudioTrack | NoNonsilentParts | ZeroDivisionError | IndexError | UnboundLocalError
  | ExternalError string

text \<open>
  \<open>nonsilent_chunks[0]\<close> raises IndexError on the empty list; in \<open>run\<close> the guard of
  line 68 raises before that.
\<close>

definition build_segments :: "real list \<Rightarrow> real \<Rightarrow> real \<Rightarrow> exn + segment list" where
  "build_segments nonsilent_chunks c d =
     (case nonsilent_chunks of
        [] \<Rightarrow> Inl IndexError
      | t0 # rest \<Rightarrow> Inr (segment_loop c d t0 t0 rest []))"

subsection \<open>Paths (line 21, lines 94 to 109)\<close>

text \<open>
  \<open>str.lower\<close> restricted to ASCII: the letters A to Z are mapped to a to z and every
  other byte is kept. Only the last characters of the path are compared with ASCII
  extensions, so nothing else of \<open>lower\<close> is observed.
\<close>

definition ascii_lower :: "char \<Rightarrow> char" where
  "ascii_lower ch =
     (let n = (of_char ch :: nat) in if 65 \<le> n \<and> n \<le> 90 then char_of (n + 32) else ch)"

definition lower :: "string \<Rightarrow> string" where
  "lower s = map ascii_lower s"

definition endswith :: "string \<Rightarrow> string \<Rightarrow> bool" where
  "endswith s suf = (length suf \<le> length s \<and> drop (length s - length suf) s = suf)"

definition audio_extensions :: "string list" where
  "audio_extensions = [''.mp3'', ''.wav'', ''.ogg'', ''.flac'', ''.aac'']"

definition is_audio_only :: "string \<Rightarrow> bool" where
  "is_audio_only input_path = list_ex (endswith (lower input_path)) audio_extensions"

text \<open>
  \<open>os.path.splitext\<close> is the standard library's: the extension starts at the last dot of
  the last path component, unless that component has only leading dots before it.
  \<open>rfind\<close> is \<open>str.rfind\<close> for one character (\<open>-1\<close> when absent). The separators of the
  platform are a parameter: \<open>[CHR ''/'']\<close> for posixpath, a backslash and a slash for
  ntpath.
\<close>

fun rfind_from :: "char \<Rightarrow> string \<Rightarrow> int \<Rightarrow> int \<Rightarrow> int" where
  "rfind_from ch [] i found = found"
| "rfind_from ch (x # xs) i found = rfind_from ch xs (i + 1) (if x = ch then i else found)"

definition rfind :: "char \<Rightarrow> string \<Rightarrow> int" where
  "rfind ch p = rfind_from ch p 0 (- 1)"

definition splitext :: "char list \<Rightarrow> string \<Rightarrow> string \<times> string" where
  "splitext seps p =
     (let sepIndex = fold max (map (\<lambda>sep. rfind sep p) seps) (- 1);
          dotIndex = rfind (CHR ''.'') p
      in if dotIndex > sepIndex \<and>
            list_ex (\<lambda>ch. ch \<noteq> CHR ''.'')
              (take (nat (dotIndex - (sepIndex + 1))) (drop (nat (sepIndex + 1)) p))
         then (take (nat dotIndex) p, drop (nat dotIndex) p)
         else (p, []))"

definition output_path_of :: "char list \<Rightarrow> string \<Rightarrow> string" where
  "output_path_of seps input_path =
     fst (splitext seps input_path) @ ''_no_silence'' @
       (if is_audio_only input_path then snd (splitext seps input_path) else ''.mp4'')"

subsection \<open>Signals, collaborators and the state of a run\<close>

text \<open>
  The four Qt signals of the worker. The \<open>error\<close> signal carries \<open>str(e)\<close>; the model keeps
  the exception itself. \<open>NoAudioTrack\<close> is \<open>Exception("No audio track found in the file!")\<close>
  and \<open>NoNonsilentParts\<close> is \<open>Exception("No non-silent parts found in the media!")\<close>.
\<close>

datatype event = Status string | Progress int | Finished string | Error exn

record params =
  input_path :: string
  threshold :: real
  chunk_duration :: real

record media =
  duration :: real
  has_audio :: bool

text \<open>
  What moviepy and numpy do is not part of the repository; it is a parameter of the model.
  \<open>float_div x y\<close> is the quotient \<open>x / y\<close> as the machine computes it, for \<open>y\<close> other than
  0: the exact quotient rounded to a double. Line 45 and \<open>np.arange\<close> both compute it, from
  the same operands. \<open>open_clip\<close> is \<open>AudioFileClip\<close> or \<open>VideoFileClip\<close> (an exception message, or the clip);
  \<open>chunk_level t end_t\<close> is lines 48 to 54 for one window: an exception, a chunk that is
  \<open>None\<close>, or the root mean square of its samples; \<open>subclip_error\<close>, \<open>concatenate_error\<close>
  and \<open>write_error\<close> say whether \<open>media.subclip\<close>, \<open>concatenate_*clips\<close> and
  \<open>write_*file\<close> raise.
\<close>

record env =
  path_seps :: "char list"
  float_div :: "real \<Rightarrow> real \<Rightarrow> real"
  open_clip :: "string \<Rightarrow> string + media"
  chunk_level :: "real \<Rightarrow> real \<Rightarrow> string + real option"
  subclip_error :: "real \<Rightarrow> real \<Rightarrow> string option"
  concatenate_error :: "segment list \<Rightarrow> string option"
  write_error :: "string \<Rightarrow> string option"

text \<open>
  The state of a run: the events emitted so far, the windows \<open>(t, end_t)\<close> for which the
  body of the loop of line 46 was entered (\<open>subclip\<close> was called on them), whether the
  media was opened and closed, and the file written.
\<close>

record state =
  events :: "event list"
  analysed :: "(real \<times> real) list"
  media_opened :: bool
  media_closed :: bool
  output_file :: "string option"

definition emit :: "event \<Rightarrow> state \<Rightarrow> state" where
  "emit e s = s\<lparr>events := events s @ [e]\<rparr>"

definition initial :: state where
  "initial =
     \<lparr>events = [], analysed = [], media_opened = False, media_closed = False, output_file = None\<rparr>"

subsection \<open>Analysis (lines 39 to 56)\<close>

text \<open>\<open>int(x)\<close> on a float truncates towards zero.\<close>

definition py_int :: "real \<Rightarrow> int" where
  "py_int x = (if 0 \<le> x then \<lfloor>x\<rfloor> else \<lceil>x\<rceil>)"

text \<open>
  \<open>np.arange(0, stop, step)\<close> has \<open>ceil(q)\<close> elements, where \<open>q\<close> is the quotient
  \<open>stop / step\<close> it computes (none when that is not positive), the element of index \<open>i\<close>
  being \<open>i * step\<close>.
\<close>

definition arange :: "env \<Rightarrow> real \<Rightarrow> real \<Rightarrow> real list" where
  "arange E stop step = map (\<lambda>i. real i * step) [0..<nat \<lceil>float_div E stop step\<rceil>]"

fun analyze_loop ::
  "env \<Rightarrow> real \<Rightarrow> real \<Rightarrow> int \<Rightarrow> (nat \<times> real) list \<Rightarrow> (real \<times> real) list \<Rightarrow> state
     \<Rightarrow> state \<times> (exn + (real \<times> real) list)" where
  "analyze_loop E c d chunk_count [] audio_chunks s = (s, Inr audio_chunks)"
| "analyze_loop E c d chunk_count ((i, t) # rest) audio_chunks s =
     (let end_t = min (t + c) d;
          s1 = s\<lparr>analysed := analysed s @ [(t, end_t)]\<rparr>
      in case chunk_level E t end_t of
           Inl msg \<Rightarrow> (s1, Inl (ExternalError msg))
         | Inr chunk \<Rightarrow>
             (let audio_chunks' =
                    (case chunk of None \<Rightarrow> audio_chunks | Some v \<Rightarrow> audio_chunks @ [(t, v)])
              in if chunk_count = 0 then (s1, Inl ZeroDivisionError)
                 else analyze_loop E c d chunk_count rest audio_chunks'
                        (emit (Progress (10 + py_int (real i / of_int chunk_count * 30))) s1)))"

text \<open>Line 45 raises when the chunk duration is 0; otherwise \<open>chunk_count\<close> is \<open>int(q)\<close>.\<close>

definition analysis_phase ::
  "env \<Rightarrow> real \<Rightarrow> real \<Rightarrow> state \<Rightarrow> state \<times> (exn + (real \<times> real) list)" where
  "analysis_phase E c d s =
     (if c = 0 then (s, Inl ZeroDivisionError)
      else analyze_loop E c d (py_int (float_div E d c)) (List.enumerate 0 (arange E d c)) [] s)"

subsection \<open>Classification (lines 59 to 63)\<close>

definition classify :: "(real \<times> real) list \<Rightarrow> real \<Rightarrow> real list" where
  "classify audio_chunks th = map fst (filter (\<lambda>(t, volume). volume > th) audio_chunks)"

subsection \<open>Clips and saving (lines 71 to 125)\<close>

text \<open>
  \<open>media.subclip\<close> is called once per segment, in the order the segments are closed, and
  nothing is emitted in between: the first call that raises ends the phase.
\<close>

fun first_error :: "(real \<Rightarrow> real \<Rightarrow> string option) \<Rightarrow> segment list \<Rightarrow> string option" where
  "first_error f [] = None"
| "first_error f ((a, b) # segs) =
     (case f a b of Some msg \<Rightarrow> Some msg | None \<Rightarrow> first_error f segs)"

definition clips_phase :: "env \<Rightarrow> real \<Rightarrow> real \<Rightarrow> real list \<Rightarrow> exn + segment list" where
  "clips_phase E c d nonsilent_chunks =
     (case build_segments nonsilent_chunks c d of
        Inl e \<Rightarrow> Inl e
      | Inr clips \<Rightarrow>
          (case first_error (subclip_error E) clips of
             Some msg \<Rightarrow> Inl (ExternalError msg)
           | None \<Rightarrow> Inr clips))"

text \<open>
  Lines 93 to 125. When \<open>clips\<close> is empty \<open>output_path\<close> is never bound and line 125 raises
  \<open>UnboundLocalError\<close>, after the media was closed and progress 100 emitted.
\<close>

definition save_phase :: "params \<Rightarrow> env \<Rightarrow> segment list \<Rightarrow> state \<Rightarrow> state \<times> (exn + string)" where
  "save_phase P E clips s =
     (let finish = (\<lambda>s. emit (Progress 100) (s\<lparr>media_closed := True\<rparr>)) in
      if clips \<noteq> [] then
        (case concatenate_error E clips of
           Some msg \<Rightarrow> (s, Inl (ExternalError msg))
         | None \<Rightarrow>
             (let output_path = output_path_of (path_seps E) (input_path P);
                  s1 = emit (Status (if is_audio_only (input_path P)
                                     then ''Saving audio...'' else ''Saving video...'')) s
              in case write_error E output_path of
                   Some msg \<Rightarrow> (s1, Inl (ExternalError msg))
                 | None \<Rightarrow> (finish (s1\<lparr>output_file := Some output_path\<rparr>), Inr output_path)))
      else (finish s, Inl UnboundLocalError))"

subsection \<open>The run (lines 23 to 128)\<close>

text \<open>Lines 58 to 125: what follows the analysis loop.\<close>

definition detect_and_save ::
  "params \<Rightarrow> env \<Rightarrow> real \<Rightarrow> real \<Rightarrow> (real \<times> real) list \<Rightarrow> state \<Rightarrow> state \<times> (exn + string)" where
  "detect_and_save P E c d audio_chunks s =
     (let s1 = emit (Status ''Detecting silent parts...'') s;
          nonsilent_chunks = classify audio_chunks (threshold P);
          s2 = emit (Status ''Creating clips...'') (emit (Progress 50) s1)
      in if nonsilent_chunks = [] then (s2, Inl NoNonsilentParts)
         else
           (case clips_phase E c d nonsilent_chunks of
              Inl e \<Rightarrow> (s2, Inl e)
            | Inr clips \<Rightarrow>
                save_phase P E clips
                  (emit (Status ''Combining clips...'') (emit (Progress 70) s2))))"

text \<open>Lines 24 to 56, then the rest. An exception leaves the \<open>try\<close> block with the state as it is.\<close>

definition run_body :: "params \<Rightarrow> env \<Rightarrow> state \<times> (exn + string)" where
  "run_body P E =
     (let s0 = emit (Status ''Loading media...'') initial in
      case open_clip E (input_path P) of
        Inl msg \<Rightarrow> (s0, Inl (ExternalError msg))
      | Inr m \<Rightarrow>
          (let s1 = s0\<lparr>media_opened := True\<rparr> in
           if \<not> is_audio_only (input_path P) \<and> \<not> has_audio m then (s1, Inl NoAudioTrack)
           else
             (let s2 = emit (Status ''Analyzing audio...'') (emit (Progress 10) s1);
                  d = duration m;
                  c = chunk_duration P
              in case analysis_phase E c d s2 of
                   (s3, Inl e) \<Rightarrow> (s3, Inl e)
                 | (s3, Inr audio_chunks) \<Rightarrow> detect_and_save P E c d audio_chunks s3)))"

text \<open>The handler of line 127 and the last statement of the \<open>try\<close> block, line 125.\<close>

definition run :: "params \<Rightarrow> env \<Rightarrow> state" where
  "run P E =
     (case run_body P E of
        (s, Inl e) \<Rightarrow> emit (Error e) s
      | (s, Inr output_path) \<Rightarrow> emit (Finished output_path) s)"

subsection \<open>Properties of segments and of event traces\<close>

definition in_media :: "real \<Rightarrow> real \<Rightarrow> bool" where
  "in_media d t = (0 \<le> t \<and> t < d)"

definition valid_segment :: "real \<Rightarrow> segment \<Rightarrow> bool" where
  "valid_segment d seg = (0 \<le> fst seg \<and> fst seg < snd seg \<and> snd seg \<le> d)"

definition covers :: "real \<Rightarrow> segment \<Rightarrow> bool" where
  "covers t seg = (fst seg \<le> t \<and> t \<le> snd seg)"

fun non_overlapping :: "segment list \<Rightarrow> bool" where
  "non_overlapping (a # b # rest) = (snd a \<le> fst b \<and> non_overlapping (b # rest))"
| "non_overlapping _ = True"

text \<open>
  Whole multiples of the chunk duration, as exact products. The window starts that the
  code computes are these products rounded to doubles.
\<close>

definition exact_grid :: "real \<Rightarrow> nat list \<Rightarrow> real list" where
  "exact_grid c ks = map (\<lambda>k. real k * c) ks"

text \<open>
  The windows \<open>(t, end_t)\<close> that the loop of lines 46 and 47 walks, what one window adds
  to \<open>audio_chunks\<close>, and whether it is classified as non-silent.
\<close>

definition windows :: "env \<Rightarrow> real \<Rightarrow> real \<Rightarrow> (real \<times> real) list" where
  "windows E d c = map (\<lambda>t. (t, min (t + c) d)) (arange E d c)"

definition sample :: "env \<Rightarrow> real \<times> real \<Rightarrow> (real \<times> real) list" where
  "sample E w = (case chunk_level E (fst w) (snd w) of Inr (Some v) \<Rightarrow> [(fst w, v)] | _ \<Rightarrow> [])"

definition loud :: "env \<Rightarrow> real \<Rightarrow> real \<times> real \<Rightarrow> bool" where
  "loud E th w = (case chunk_level E (fst w) (snd w) of Inr (Some v) \<Rightarrow> v > th | _ \<Rightarrow> False)"

text \<open>The terminal events of a run, and the values carried by its progress events.\<close>

fun is_terminal :: "event \<Rightarrow> bool" where
  "is_terminal (Finished p) = True"
| "is_terminal (Error e) = True"
| "is_terminal _ = False"

fun progress_of :: "event \<Rightarrow> int list" where
  "progress_of (Progress n) = [n]"
| "progress_of _ = []"

definition progress_values :: "event list \<Rightarrow> int list" where
  "progress_values evs = concat (map progress_of evs)"

text \<open>
  The value of line 55 for the window of index \<open>i\<close>, and the events of a \<open>try\<close> block that
  runs to its end, given the progress values \<open>vs\<close> of the analysis.
\<close>

definition progress_at :: "int \<Rightarrow> nat \<Rightarrow> int" where
  "progress_at chunk_count i = 10 + py_int (real i / of_int chunk_count * 30)"

definition saving_status :: "string \<Rightarrow> string" where
  "saving_status p = (if is_audio_only p then ''Saving audio...'' else ''Saving video...'')"

definition full_trace :: "string \<Rightarrow> int list \<Rightarrow> event list" where
  "full_trace p vs =
     [Status ''Loading media...'', Progress 10, Status ''Analyzing audio...''] @
     map Progress vs @
     [Status ''Detecting silent parts...'', Progress 50, Status ''Creating clips...'',
      Progress 70, Status ''Combining clips...'', Status (saving_status p), Progress 100]"

definition good_values :: "int list \<Rightarrow> bool" where
  "good_values vs = (sorted vs \<and> list_all (\<lambda>v. 10 \<le> v \<and> v \<le> 40) vs)"

text \<open>
  The state in which the \<open>try\<close> block is left: by an exception, with a prefix of the full
  trace, or at its end.
\<close>

definition failed_shape :: "string \<Rightarrow> state \<Rightarrow> bool" where
  "failed_shape p s = (\<not> media_closed s \<and> output_file s = None \<and>
      (\<exists>vs. good_values vs \<and> prefix (events s) (full_trace p vs)))"

definition finished_shape :: "char list \<Rightarrow> string \<Rightarrow> state \<Rightarrow> string \<Rightarrow> bool" where
  "finished_shape seps p s out = (media_opened s \<and> media_closed s \<and> out = output_path_of seps p \<and>
      output_file s = Some out \<and> (\<exists>vs. good_values vs \<and> events s = full_trace p vs))"

definition body_shape :: "params \<Rightarrow> env \<Rightarrow> state \<times> (exn + string) \<Rightarrow> bool" where
  "body_shape P E sr =
     (case sr of
        (s, Inl e) \<Rightarrow> failed_shape (input_path P) s
      | (s, Inr out) \<Rightarrow> finished_shape (path_seps E) (input_path P) s out)"

subsection \<open>Concrete collaborators\<close>

text \<open>
  A clip of duration \<open>d\<close> with an audio track whose window starting at \<open>t\<close> has the level
  \<open>level t\<close>, in an environment where nothing raises and quotients are exact; two level
  functions; and parameters of the worker. \<open>wav_params\<close> has the defaults of the worker.
  In \<open>wav_eighth\<close> and \<open>mov_eighth\<close> the chunk duration is an eighth of a second: with the
  durations used below, every float of such a run is a dyadic fraction that doubles hold
  exactly, so that the model and the code compute the same numbers.
\<close>

definition clip_env :: "real \<Rightarrow> (real \<Rightarrow> real) \<Rightarrow> env" where
  "clip_env d level =
     \<lparr>path_seps = [CHR ''/''],
      float_div = (\<lambda>x y. x / y),
      open_clip = (\<lambda>p. Inr \<lparr>duration = d, has_audio = True\<rparr>),
      chunk_level = (\<lambda>t end_t. Inr (Some (level t))),
      subclip_error = (\<lambda>a b. None),
      concatenate_error = (\<lambda>clips. None),
      write_error = (\<lambda>p. None)\<rparr>"

definition silence :: "real \<Rightarrow> real" where
  "silence t = 0"

definition burst :: "real \<Rightarrow> real" where
  "burst t = (if t < 1 / 5 then 1 / 2 else 0)"

definition wav_params :: params where
  "wav_params = \<lparr>input_path = ''foo.wav'', threshold = 1 / 25, chunk_duration = 1 / 10\<rparr>"

definition wav_eighth :: params where
  "wav_eighth = \<lparr>input_path = ''foo.wav'', threshold = 1 / 32, chunk_duration = 1 / 8\<rparr>"

definition mov_eighth :: params where
  "mov_eighth = \<lparr>input_path = ''foo.mov'', threshold = 1 / 32, chunk_duration = 1 / 8\<rparr>"

text \<open>
  Doubles, as the fractions they are: the double nearest to 0.1, the starts of the windows
  of index 11 and 13 at that step (the products \<open>11 * 0.1\<close> and \<open>13 * 0.1\<close> rounded), and the
  doubles to which the code rounds the padded end of the first and the padded start of the
  second. \<open>nearest_double e x r\<close> says that \<open>r\<close> is a double whose unit in the last place is
  \<open>2 ^ - e\<close> (a whole multiple of it with a significand of 53 bits), less than half such a
  unit away from \<open>x\<close>.
\<close>

definition tenth :: real where
  "tenth = 3602879701896397 / 2 ^ 55"

definition window_11 :: real where
  "window_11 = 2476979795053773 / 2 ^ 51"

definition window_13 :: real where
  "window_13 = 5854679515581645 / 2 ^ 52"

definition end_11 :: real where
  "end_11 = 1351079888211149 / 2 ^ 50"

definition start_13 :: real where
  "start_13 = 5404319552844595 / 2 ^ 52"

definition nearest_double :: "nat \<Rightarrow> real \<Rightarrow> real \<Rightarrow> bool" where
  "nearest_double e x r =
     (r * 2 ^ e = of_int \<lfloor>r * 2 ^ e\<rfloor> \<and> 2 ^ 52 < r * 2 ^ e \<and> r * 2 ^ e < 2 ^ 53 \<and>
      \<bar>x - r\<bar> * 2 ^ (e + 1) < 1)"

section \<open>Segment building\<close>

text \<open>
  Claim C1: for the times 0.0, 0.1, 0.2, 0.5, 0.6 with chunk duration 0.1 and duration 1.0
  the segment-building step produces exactly the two segments [0.0, 0.3] and [0.4, 0.7].
\<close>

theorem C1_example_segments:
  "build_segments [0, 1/10, 2/10, 5/10, 6/10] (1/10) 1 = Inr [(0, 3/10), (4/10, 7/10)]"
  by (simp add: build_segments_def padded_def)

subsection \<open>The loop, one step at a time\<close>

lemma segment_loop_append:
  "segment_loop c d s p ts clips = clips @ segment_loop c d s p ts []"
proof (induction ts arbitrary: s p clips)
  case Nil
  show ?case by simp
next
  case (Cons t ts)
  show ?case
  proof (cases "t - p > c * (3 / 2)")
    case True
    have "segment_loop c d s p (t # ts) clips = segment_loop c d t t ts (clips @ [padded c d s p])"
      using True by simp
    also have "\<dots> = (clips @ [padded c d s p]) @ segment_loop c d t t ts []"
      by (rule Cons.IH)
    also have "\<dots> = clips @ segment_loop c d t t ts ([] @ [padded c d s p])"
      using Cons.IH [of t t "[padded c d s p]"] by simp
    finally show ?thesis using True by simp
  next
    case False
    then show ?thesis using Cons.IH [of s t clips] by simp
  qed
qed

lemma segment_loop_split:
  "t - p > c * (3 / 2) \<Longrightarrow>
     segment_loop c d s p (t # ts) [] = padded c d s p # segment_loop c d t t ts []"
  using segment_loop_append [of c d t t ts "[padded c d s p]"] by simp

lemma segment_loop_extend:
  "\<not> t - p > c * (3 / 2) \<Longrightarrow> segment_loop c d s p (t # ts) [] = segment_loop c d s t ts []"
  by simp

lemma segment_loop_first:
  "\<exists>e rest. segment_loop c d s p ts [] = (max 0 (s - c), e) # rest"
proof (induction ts arbitrary: p)
  case Nil
  show ?case by (simp add: padded_def)
next
  case (Cons t ts)
  show ?case
  proof (cases "t - p > c * (3 / 2)")
    case True
    then show ?thesis by (simp add: segment_loop_split padded_def del: segment_loop.simps)
  next
    case False
    then show ?thesis using Cons.IH [of t] by simp
  qed
qed

lemma segment_loop_valid:
  assumes "0 < c" "s \<le> p" "sorted (p # ts)" "in_media d s" "list_all (in_media d) (p # ts)"
  shows "list_all (valid_segment d) (segment_loop c d s p ts [])"
  using assms
proof (induction ts arbitrary: s p)
  case Nil
  then show ?case by (simp add: padded_def valid_segment_def in_media_def)
next
  case (Cons t ts)
  show ?case
  proof (cases "t - p > c * (3 / 2)")
    case True
    have "valid_segment d (padded c d s p)"
      using Cons.prems by (simp add: padded_def valid_segment_def in_media_def)
    moreover have "list_all (valid_segment d) (segment_loop c d t t ts [])"
      using Cons.prems by (intro Cons.IH) simp_all
    ultimately show ?thesis using True by (simp add: segment_loop_split del: segment_loop.simps)
  next
    case False
    have "list_all (valid_segment d) (segment_loop c d s t ts [])"
      using Cons.prems by (intro Cons.IH) simp_all
    then show ?thesis using False by simp
  qed
qed

lemma segment_loop_covers:
  assumes "0 \<le> c" "s \<le> p" "sorted (p # ts)" "in_media d x" "s \<le> x" "x \<le> p \<or> x \<in> set ts"
  shows "list_ex (covers x) (segment_loop c d s p ts [])"
  using assms
proof (induction ts arbitrary: s p)
  case Nil
  then show ?case by (simp add: padded_def covers_def in_media_def)
next
  case (Cons t ts)
  show ?case
  proof (cases "t - p > c * (3 / 2)")
    case True
    show ?thesis
    proof (cases "x \<le> p")
      case True
      then have "covers x (padded c d s p)"
        using Cons.prems by (simp add: padded_def covers_def in_media_def)
      then show ?thesis using \<open>t - p > c * (3 / 2)\<close> by (simp add: segment_loop_split del: segment_loop.simps)
    next
      case False
      then have "x \<in> set (t # ts)" using Cons.prems by simp
      then have "t \<le> x" "x \<le> t \<or> x \<in> set ts" using Cons.prems(3) by auto
      then have "list_ex (covers x) (segment_loop c d t t ts [])"
        using Cons.prems by (intro Cons.IH) simp_all
      then show ?thesis using True by (simp add: segment_loop_split del: segment_loop.simps)
    qed
  next
    case False
    have "x \<le> t \<or> x \<in> set ts" using Cons.prems by auto
    then have "list_ex (covers x) (segment_loop c d s t ts [])"
      using Cons.prems by (intro Cons.IH) simp_all
    then show ?thesis using False by simp
  qed
qed

lemma segment_loop_last:
  "snd (last (segment_loop c d s p ts [])) = min d (last (p # ts) + c)"
proof (induction ts arbitrary: s p)
  case Nil
  show ?case by (simp add: padded_def)
next
  case (Cons t ts)
  show ?case
  proof (cases "t - p > c * (3 / 2)")
    case True
    obtain e rest where "segment_loop c d t t ts [] = (max 0 (t - c), e) # rest"
      using segment_loop_first by blast
    then show ?thesis
      using True Cons.IH [of t t] by (simp add: segment_loop_split del: segment_loop.simps)
  next
    case False
    then show ?thesis using Cons.IH [of s t] by simp
  qed
qed

lemma grid_gap:
  assumes "0 < c" "real k * c - real j * c > c * (3 / 2)"
  shows "real j * c + c \<le> real k * c - c"
proof -
  have "(real k - real j) * c > (3 / 2) * c"
    using assms(2) by (simp add: algebra_simps)
  then have "real k - real j > 3 / 2"
    using assms(1) by simp
  then have "j + 2 \<le> k" by linarith
  then have "real j + 2 \<le> real k" by linarith
  then have "(real j + 2) * c \<le> real k * c"
    using assms(1) by (simp only: mult_le_cancel_right) simp
  then show ?thesis by (simp add: algebra_simps)
qed

lemma segment_loop_non_overlapping:
  assumes "0 < c"
  shows "non_overlapping (segment_loop c d s (real j * c) (exact_grid c ks) [])"
proof (induction ks arbitrary: s j)
  case Nil
  show ?case by (simp add: exact_grid_def)
next
  case (Cons k ks)
  let ?p = "real j * c" and ?t = "real k * c"
  show ?case
  proof (cases "?t - ?p > c * (3 / 2)")
    case True
    obtain e rest where eq: "segment_loop c d ?t ?t (exact_grid c ks) [] = (max 0 (?t - c), e) # rest"
      using segment_loop_first by blast
    have "snd (padded c d s ?p) \<le> max 0 (?t - c)"
      using grid_gap [OF assms True] by (simp add: padded_def)
    moreover have "non_overlapping (segment_loop c d ?t ?t (exact_grid c ks) [])"
      by (rule Cons.IH)
    ultimately show ?thesis
      using True eq by (simp add: exact_grid_def segment_loop_split del: segment_loop.simps)
  next
    case False
    then show ?thesis using Cons.IH [of s k] by (simp add: exact_grid_def)
  qed
qed

lemma segment_loop_starts:
  assumes "s \<le> p" "sorted (p # ts)"
  shows "sorted (map fst (segment_loop c d s p ts [])) \<and>
         list_all (\<lambda>seg. max 0 (s - c) \<le> fst seg) (segment_loop c d s p ts [])"
  using assms
proof (induction ts arbitrary: s p)
  case Nil
  show ?case by (simp add: padded_def)
next
  case (Cons t ts)
  show ?case
  proof (cases "t - p > c * (3 / 2)")
    case True
    have ih: "sorted (map fst (segment_loop c d t t ts [])) \<and>
         list_all (\<lambda>seg. max 0 (t - c) \<le> fst seg) (segment_loop c d t t ts [])"
      using Cons.prems by (intro Cons.IH) simp_all
    have "max 0 (s - c) \<le> max 0 (t - c)" using Cons.prems by auto
    then have "list_all (\<lambda>seg. max 0 (s - c) \<le> fst seg) (segment_loop c d t t ts [])"
      using ih by (auto simp: list_all_iff)
    then show ?thesis
      using True ih
      by (simp add: segment_loop_split padded_def list_all_iff del: segment_loop.simps)
  next
    case False
    have "sorted (map fst (segment_loop c d s t ts [])) \<and>
         list_all (\<lambda>seg. max 0 (s - c) \<le> fst seg) (segment_loop c d s t ts [])"
      using Cons.prems by (intro Cons.IH) simp_all
    then show ?thesis using False by simp
  qed
qed

lemma sorted_exact_grid: "0 < c \<Longrightarrow> sorted_wrt (<) ks \<Longrightarrow> sorted (exact_grid c ks)"
  by (induction ks) (auto simp: exact_grid_def)

subsection \<open>Order of the segments\<close>

text \<open>
  On whole multiples of the chunk duration, in exact arithmetic, a gap above one and a half
  chunks is a gap of at least two, and the padded segments at most touch: the loop aims at
  what claim C2 says.
\<close>

lemma exact_grid_segments_at_most_touch:
  assumes "0 < c" "ks \<noteq> []" "sorted_wrt (<) ks"
  shows "\<exists>clips. build_segments (exact_grid c ks) c d = Inr clips \<and>
           non_overlapping clips \<and> sorted (map fst clips)"
proof -
  obtain k rest where ks: "ks = k # rest" using assms(2) by (cases ks) auto
  have "sorted (exact_grid c ks)" using assms by (simp add: sorted_exact_grid)
  then have "sorted (real k * c # exact_grid c rest)" by (simp add: ks exact_grid_def)
  then have "sorted (map fst (segment_loop c d (real k * c) (real k * c) (exact_grid c rest) []))"
    using segment_loop_starts [of "real k * c" "real k * c" "exact_grid c rest" c d] by simp
  moreover have "non_overlapping (segment_loop c d (real k * c) (real k * c) (exact_grid c rest) [])"
    by (rule segment_loop_non_overlapping [OF assms(1)])
  ultimately show ?thesis by (simp add: build_segments_def ks exact_grid_def)
qed

text \<open>
  The window starts of the code are not exact multiples: \<open>np.arange\<close> rounds each product to
  a double. The constants below are those doubles for the step 0.1 and the windows of index
  11 and 13, and the doubles to which lines 78 and 79 round the padded end of the first and
  the padded start of the second.
\<close>

lemma rounded_window_starts:
  "nearest_double 56 (1 / 10) tenth \<and>
   nearest_double 52 (11 * tenth) window_11 \<and> nearest_double 52 (13 * tenth) window_13 \<and>
   nearest_double 52 (window_11 + tenth) end_11 \<and>
   nearest_double 52 (window_13 - tenth) start_13 \<and> start_13 < end_11"
  by (simp add: nearest_double_def tenth_def window_11_def window_13_def end_11_def start_13_def)

text \<open>
  Claim C2 says that the segments are sorted by start and that each segment ends no later
  than the next one starts. When the windows of index 11 and 13 are the non-silent ones, at
  the chunk duration 0.1, the gap between them exceeds the tolerance, two segments are
  made, and the first ends after the second starts: the sum \<open>1.1 + 0.1\<close> exceeds the
  difference \<open>1.3 - 0.1\<close> on these doubles, before the results are rounded and after.
\<close>

theorem C2_rounded_window_starts_overlap:
  "build_segments [window_11, window_13] tenth 2 =
     Inr [(window_11 - tenth, window_11 + tenth), (window_13 - tenth, window_13 + tenth)] \<and>
   window_13 - tenth < window_11 + tenth \<and>
   \<not> non_overlapping
       [(window_11 - tenth, window_11 + tenth), (window_13 - tenth, window_13 + tenth)]"
  by (simp add: build_segments_def padded_def tenth_def window_11_def window_13_def)

subsection \<open>Bounds of the segments\<close>

text \<open>
  Claim C7: for every non-empty input of non-silent times, in the ascending order in which
  the classification yields them, each lying in \<open>[0, duration)\<close>, every segment satisfies
  \<open>0 \<le> start < end \<le> duration\<close>, and the end of the last segment is the padded end
  clamped to the duration.
\<close>

theorem C7_segments_within_media:
  assumes "0 < c" "nonsilent \<noteq> []" "sorted nonsilent" "list_all (in_media d) nonsilent"
  shows "\<exists>clips. build_segments nonsilent c d = Inr clips \<and> clips \<noteq> [] \<and>
           list_all (valid_segment d) clips \<and> snd (last clips) = min d (last nonsilent + c)"
proof -
  obtain t0 rest where ns: "nonsilent = t0 # rest" using assms(2) by (cases nonsilent) auto
  obtain e more where "segment_loop c d t0 t0 rest [] = (max 0 (t0 - c), e) # more"
    using segment_loop_first by blast
  then have "segment_loop c d t0 t0 rest [] \<noteq> []" by simp
  moreover have "list_all (valid_segment d) (segment_loop c d t0 t0 rest [])"
    using assms by (intro segment_loop_valid) (simp_all add: ns)
  moreover have "snd (last (segment_loop c d t0 t0 rest [])) = min d (last (t0 # rest) + c)"
    by (rule segment_loop_last)
  ultimately show ?thesis by (simp add: build_segments_def ns)
qed

theorem C7_segments_within_media_witness:
  "(0::real) < 1/10 \<and> [0, 1/10, 9/10 :: real] \<noteq> [] \<and> sorted [0, 1/10, 9/10 :: real] \<and>
   list_all (in_media 1) [0, 1/10, 9/10] \<and>
   build_segments [0, 1/10, 9/10] (1/10) 1 = Inr [(0, 1/5), (4/5, 1)] \<and>
   list_all (valid_segment 1) [(0, 1/5), (4/5, 1)]"
  using C7_segments_within_media [of "1/10" "[0, 1/10, 9/10]" 1]
  by (simp add: in_media_def build_segments_def padded_def valid_segment_def)

subsection \<open>Coverage\<close>

text \<open>
  Claim C10: for every non-empty, sorted input of non-silent times, each in
  \<open>[0, duration)\<close>, every input time lies in some produced segment.
\<close>

theorem C10_times_covered:
  assumes "0 < c" "nonsilent \<noteq> []" "sorted nonsilent" "list_all (in_media d) nonsilent"
  shows "\<exists>clips. build_segments nonsilent c d = Inr clips \<and>
           list_all (\<lambda>t. list_ex (covers t) clips) nonsilent"
proof -
  obtain t0 rest where ns: "nonsilent = t0 # rest" using assms(2) by (cases nonsilent) auto
  have "list_ex (covers t) (segment_loop c d t0 t0 rest [])" if "t \<in> set nonsilent" for t
  proof -
    have "in_media d t" using that assms(4) by (simp add: list_all_iff)
    moreover have "t0 \<le> t" using that assms(3) by (auto simp: ns)
    moreover have "t \<le> t0 \<or> t \<in> set rest" using that by (auto simp: ns)
    ultimately show ?thesis
      using assms by (intro segment_loop_covers) (simp_all add: ns)
  qed
  then show ?thesis by (simp add: build_segments_def ns list_all_iff)
qed

theorem C10_times_covered_witness:
  "(0::real) < 1/10 \<and> [0, 1/10, 1/2 :: real] \<noteq> [] \<and> sorted [0, 1/10, 1/2 :: real] \<and>
   list_all (in_media 1) [0, 1/10, 1/2] \<and>
   build_segments [0, 1/10, 1/2] (1/10) 1 = Inr [(0, 1/5), (2/5, 3/5)] \<and>
   list_all (\<lambda>t. list_ex (covers t) [(0, 1/5), (2/5, 3/5)]) [0, 1/10, 1/2]"
  using C10_times_covered [of "1/10" "[0, 1/10, 1/2]" 1]
  by (simp add: in_media_def build_segments_def padded_def covers_def)

section \<open>Analysis\<close>

subsection \<open>What the loop emits, visits and collects\<close>

lemma analyze_loop_state:
  "analyze_loop E c d cc its chunks s = (s', r) \<Longrightarrow>
     \<exists>n \<le> length its.
        events s' = events s @ map (\<lambda>(i, t). Progress (progress_at cc i)) (take n its) \<and>
        (0 < n \<longrightarrow> cc \<noteq> 0) \<and> media_opened s' = media_opened s \<and>
        media_closed s' = media_closed s \<and> output_file s' = output_file s"
proof (induction its arbitrary: chunks s)
  case Nil
  then show ?case by simp
next
  case (Cons it its)
  obtain i t where it: "it = (i, t)" by (cases it)
  define s1 where "s1 = s\<lparr>analysed := analysed s @ [(t, min (t + c) d)]\<rparr>"
  show ?case
  proof (cases "chunk_level E t (min (t + c) d)")
    case (Inl msg)
    then have "s' = s1" using Cons.prems by (simp add: it s1_def)
    then show ?thesis by (intro exI [of _ 0]) (simp add: s1_def)
  next
    case (Inr chunk)
    show ?thesis
    proof (cases "cc = 0")
      case True
      then have "s' = s1" using Cons.prems Inr by (simp add: it s1_def)
      then show ?thesis by (intro exI [of _ 0]) (simp add: s1_def)
    next
      case False
      define chunks' where
        "chunks' = (case chunk of None \<Rightarrow> chunks | Some v \<Rightarrow> chunks @ [(t, v)])"
      have "analyze_loop E c d cc its chunks' (emit (Progress (progress_at cc i)) s1) = (s', r)"
        using Cons.prems Inr False by (simp add: it chunks'_def progress_at_def s1_def)
      from Cons.IH [OF this] obtain n where n: "n \<le> length its"
        "events s' = events (emit (Progress (progress_at cc i)) s1) @
           map (\<lambda>(i, t). Progress (progress_at cc i)) (take n its)"
        "media_opened s' = media_opened (emit (Progress (progress_at cc i)) s1)"
        "media_closed s' = media_closed (emit (Progress (progress_at cc i)) s1)"
        "output_file s' = output_file (emit (Progress (progress_at cc i)) s1)"
        by blast
      show ?thesis
        using n False by (intro exI [of _ "Suc n"]) (simp add: it emit_def s1_def)
    qed
  qed
qed

lemma analyze_loop_analysed:
  "analyze_loop E c d cc its chunks s = (s', r) \<Longrightarrow>
     \<exists>m \<le> length its.
        analysed s' = analysed s @ map (\<lambda>(i, t). (t, min (t + c) d)) (take m its) \<and>
        (its \<noteq> [] \<longrightarrow> 0 < m) \<and> ((\<exists>audio_chunks. r = Inr audio_chunks) \<longrightarrow> m = length its)"
proof (induction its arbitrary: chunks s)
  case Nil
  then show ?case by auto
next
  case (Cons it its)
  obtain i t where it: "it = (i, t)" by (cases it)
  define s1 where "s1 = s\<lparr>analysed := analysed s @ [(t, min (t + c) d)]\<rparr>"
  have one: "analysed s1 = analysed s @ map (\<lambda>(i, t). (t, min (t + c) d)) (take 1 (it # its))"
    by (simp add: s1_def it)
  show ?case
  proof (cases "chunk_level E t (min (t + c) d)")
    case (Inl msg)
    then have "s' = s1" "r = Inl (ExternalError msg)" using Cons.prems by (simp_all add: it s1_def)
    then show ?thesis using one by (intro exI [of _ 1]) simp
  next
    case (Inr chunk)
    show ?thesis
    proof (cases "cc = 0")
      case True
      then have "s' = s1" "r = Inl ZeroDivisionError"
        using Cons.prems Inr by (simp_all add: it s1_def)
      then show ?thesis using one by (intro exI [of _ 1]) simp
    next
      case False
      define chunks' where
        "chunks' = (case chunk of None \<Rightarrow> chunks | Some v \<Rightarrow> chunks @ [(t, v)])"
      have "analyze_loop E c d cc its chunks' (emit (Progress (progress_at cc i)) s1) = (s', r)"
        using Cons.prems Inr False by (simp add: it chunks'_def progress_at_def s1_def)
      from Cons.IH [OF this] obtain m where m: "m \<le> length its"
        "analysed s' = analysed (emit (Progress (progress_at cc i)) s1) @
           map (\<lambda>(i, t). (t, min (t + c) d)) (take m its)"
        "(\<exists>audio_chunks. r = Inr audio_chunks) \<longrightarrow> m = length its"
        by blast
      show ?thesis
        using m by (intro exI [of _ "Suc m"]) (simp add: it emit_def s1_def)
    qed
  qed
qed

lemma progress_at_bounds:
  assumes "i < nat \<lceil>q\<rceil>" "py_int q \<noteq> 0"
  shows "10 \<le> progress_at (py_int q) i" "progress_at (py_int q) i \<le> 40"
proof -
  have "0 < \<lceil>q\<rceil>" using assms(1) by linarith
  then have pos: "0 < q" by (simp only: zero_less_ceiling)
  then have cc: "py_int q = \<lfloor>q\<rfloor>" by (simp add: py_int_def)
  have "0 \<le> \<lfloor>q\<rfloor>" using pos by simp
  then have cc1: "1 \<le> \<lfloor>q\<rfloor>" using assms(2) cc by linarith
  have "int i < \<lceil>q\<rceil>" using assms(1) by linarith
  then have "int i \<le> \<lfloor>q\<rfloor>" by linarith
  then have le: "real i \<le> of_int \<lfloor>q\<rfloor>" by linarith
  define x where "x = real i / of_int \<lfloor>q\<rfloor>"
  have x0: "0 \<le> x" using cc1 by (simp add: x_def)
  have x1: "x \<le> 1" using cc1 le by (simp add: x_def divide_le_eq)
  have lo: "0 \<le> x * 30" and hi: "x * 30 \<le> 30" using x0 x1 by simp_all
  have a: "py_int (x * 30) = \<lfloor>x * 30\<rfloor>" using lo by (simp add: py_int_def)
  have "0 \<le> \<lfloor>x * 30\<rfloor>" using lo by (simp only: zero_le_floor)
  moreover have "\<lfloor>x * 30\<rfloor> \<le> 30" using hi by linarith
  ultimately have "10 \<le> 10 + py_int (x * 30)" "10 + py_int (x * 30) \<le> 40"
    using a by simp_all
  then show "10 \<le> progress_at (py_int q) i" "progress_at (py_int q) i \<le> 40"
    unfolding progress_at_def cc x_def by blast+
qed

lemma progress_at_mono:
  assumes "0 < cc" "i \<le> j"
  shows "progress_at cc i \<le> progress_at cc j"
proof -
  have "real i / of_int cc * 30 \<le> real j / of_int cc * 30"
    using assms by (simp add: divide_right_mono)
  moreover have "0 \<le> real i / of_int cc * 30" "0 \<le> real j / of_int cc * 30"
    using assms by simp_all
  ultimately show ?thesis
    by (simp add: progress_at_def py_int_def floor_mono)
qed

lemma map_take_enumerate:
  "n \<le> length xs \<Longrightarrow> map (\<lambda>(i, t). f i) (take n (List.enumerate 0 xs)) = map f [0..<n]"
  by (rule nth_equalityI) (simp_all add: nth_enumerate_eq)

lemma sorted_map_upt:
  assumes "\<And>i j. i \<le> j \<Longrightarrow> j < n \<Longrightarrow> f i \<le> (f j :: int)"
  shows "sorted (map f [0..<n])"
  using assms by (auto simp: sorted_map sorted_wrt_iff_nth_less)

lemma analysis_phase_state:
  assumes "analysis_phase E c d s = (s', r)"
  shows "\<exists>vs. events s' = events s @ map Progress vs \<and> sorted vs \<and>
           list_all (\<lambda>v. 10 \<le> v \<and> v \<le> 40) vs \<and> media_opened s' = media_opened s \<and>
           media_closed s' = media_closed s \<and> output_file s' = output_file s"
proof (cases "c = 0")
  case True
  then have "s' = s" using assms by (simp add: analysis_phase_def)
  then show ?thesis by (intro exI [of _ "[]"]) simp
next
  case False
  define q where "q = float_div E d c"
  define cc where "cc = py_int q"
  have "analyze_loop E c d cc (List.enumerate 0 (arange E d c)) [] s = (s', r)"
    using assms False by (simp add: analysis_phase_def cc_def q_def)
  from analyze_loop_state [OF this] obtain n where
    n: "n \<le> length (arange E d c)" "0 < n \<longrightarrow> cc \<noteq> 0" and
    s': "events s' = events s @
           map (\<lambda>(i, t). Progress (progress_at cc i)) (take n (List.enumerate 0 (arange E d c)))"
    and fl: "media_opened s' = media_opened s" "media_closed s' = media_closed s"
      "output_file s' = output_file s"
    by auto
  have "map (\<lambda>(i, t). Progress (progress_at cc i)) (take n (List.enumerate 0 (arange E d c)))
          = map (\<lambda>i. Progress (progress_at cc i)) [0..<n]"
    using n(1) by (rule map_take_enumerate)
  then have ev: "events s' = events s @ map Progress (map (progress_at cc) [0..<n])"
    using s' by (simp add: comp_def)
  have len: "n \<le> nat \<lceil>q\<rceil>" using n(1) by (simp add: arange_def q_def)
  have bounds: "10 \<le> progress_at cc i \<and> progress_at cc i \<le> 40" if "i < n" for i
  proof -
    have "cc \<noteq> 0" using that n(2) by auto
    moreover have "i < nat \<lceil>q\<rceil>" using that len by simp
    ultimately show ?thesis
      using progress_at_bounds [of i q] by (simp add: cc_def)
  qed
  have mono: "progress_at cc i \<le> progress_at cc j" if "i \<le> j" "j < n" for i j
  proof -
    have "cc \<noteq> 0" using that n(2) by auto
    have "0 < \<lceil>q\<rceil>" using that len by linarith
    then have "0 < q" by (simp only: zero_less_ceiling)
    then have "0 \<le> cc" by (simp add: cc_def py_int_def)
    then have "0 < cc" using \<open>cc \<noteq> 0\<close> by simp
    then show ?thesis using that(1) by (rule progress_at_mono)
  qed
  have "sorted (map (progress_at cc) [0..<n])"
    using mono by (rule sorted_map_upt)
  moreover have "list_all (\<lambda>v. 10 \<le> v \<and> v \<le> 40) (map (progress_at cc) [0..<n])"
    using bounds by (simp add: list_all_iff)
  ultimately show ?thesis using ev fl by blast
qed

lemma analyze_loop_chunks:
  "analyze_loop E c d cc its acc s = (s', Inr chunks) \<Longrightarrow>
     chunks = acc @ concat (map (\<lambda>(i, t). sample E (t, min (t + c) d)) its)"
proof (induction its arbitrary: acc s)
  case Nil
  then show ?case by simp
next
  case (Cons it its)
  obtain i t where it: "it = (i, t)" by (cases it)
  show ?case
  proof (cases "chunk_level E t (min (t + c) d)")
    case (Inl msg)
    then show ?thesis using Cons.prems by (simp add: it)
  next
    case (Inr chunk)
    show ?thesis
    proof (cases "cc = 0")
      case True
      then show ?thesis using Cons.prems Inr by (simp add: it)
    next
      case False
      define acc' where "acc' = (case chunk of None \<Rightarrow> acc | Some v \<Rightarrow> acc @ [(t, v)])"
      have acc': "acc' = acc @ sample E (t, min (t + c) d)"
        using Inr by (simp add: acc'_def sample_def split: option.splits)
      have "analyze_loop E c d cc its acc'
              (emit (Progress (10 + py_int (real i / of_int cc * 30)))
                 (s\<lparr>analysed := analysed s @ [(t, min (t + c) d)]\<rparr>)) = (s', Inr chunks)"
        using Cons.prems Inr False by (simp add: it acc'_def)
      from Cons.IH [OF this] show ?thesis by (simp add: acc' it)
    qed
  qed
qed

lemma map_snd_enumerate: "map (\<lambda>(i, t). f t) (List.enumerate n xs) = map f xs"
  by (induction xs arbitrary: n) simp_all

lemma analysis_phase_chunks:
  assumes "analysis_phase E c d s = (s', Inr chunks)"
  shows "chunks = concat (map (sample E) (windows E d c))"
proof -
  have "c \<noteq> 0" using assms by (auto simp: analysis_phase_def split: if_splits)
  then have "analyze_loop E c d (py_int (float_div E d c)) (List.enumerate 0 (arange E d c)) [] s
      = (s', Inr chunks)"
    using assms by (simp add: analysis_phase_def)
  from analyze_loop_chunks [OF this]
  have "chunks = concat (map (\<lambda>(i, t). sample E (t, min (t + c) d)) (List.enumerate 0 (arange E d c)))"
    by simp
  also have "\<dots> = concat (map (\<lambda>t. sample E (t, min (t + c) d)) (arange E d c))"
    by (simp only: map_snd_enumerate)
  finally show ?thesis by (simp add: windows_def comp_def)
qed

text \<open>
  The windows visited: all of them when the loop runs to its end, and at least the first
  one whenever there is one.
\<close>

lemma analysis_phase_analysed:
  assumes "c \<noteq> 0" "analysis_phase E c d s = (s', r)"
  shows "\<exists>m \<le> length (windows E d c).
           analysed s' = analysed s @ take m (windows E d c) \<and>
           (windows E d c \<noteq> [] \<longrightarrow> 0 < m) \<and>
           ((\<exists>audio_chunks. r = Inr audio_chunks) \<longrightarrow> m = length (windows E d c))"
proof -
  have "analyze_loop E c d (py_int (float_div E d c)) (List.enumerate 0 (arange E d c)) [] s
      = (s', r)"
    using assms by (simp add: analysis_phase_def)
  from analyze_loop_analysed [OF this] obtain m where
    m0: "m \<le> length (List.enumerate 0 (arange E d c))"
      "analysed s' = analysed s @
         map (\<lambda>(i, t). (t, min (t + c) d)) (take m (List.enumerate 0 (arange E d c)))"
      "List.enumerate 0 (arange E d c) \<noteq> [] \<longrightarrow> 0 < m"
      "(\<exists>audio_chunks. r = Inr audio_chunks) \<longrightarrow> m = length (List.enumerate 0 (arange E d c))"
    by blast
  have ne: "(List.enumerate 0 (arange E d c) \<noteq> []) = (arange E d c \<noteq> [])"
    by (cases "arange E d c") simp_all
  have m: "m \<le> length (arange E d c)"
      "analysed s' = analysed s @
         map (\<lambda>(i, t). (t, min (t + c) d)) (take m (List.enumerate 0 (arange E d c)))"
      "arange E d c \<noteq> [] \<longrightarrow> 0 < m"
      "(\<exists>audio_chunks. r = Inr audio_chunks) \<longrightarrow> m = length (arange E d c)"
    using m0 ne by simp_all
  have "map (\<lambda>(i, t). (t, min (t + c) d)) (take m (List.enumerate 0 (arange E d c)))
          = take m (map (\<lambda>(i, t). (t, min (t + c) d)) (List.enumerate 0 (arange E d c)))"
    by (simp add: take_map)
  also have "\<dots> = take m (windows E d c)"
    by (simp only: map_snd_enumerate windows_def)
  finally show ?thesis
    using m by (intro exI [of _ m]) (simp add: windows_def)
qed

subsection \<open>The windows\<close>

lemma length_windows: "length (windows E d c) = nat \<lceil>float_div E d c\<rceil>"
  by (simp add: windows_def arange_def)

lemma nth_windows:
  "i < length (windows E d c) \<Longrightarrow> windows E d c ! i = (real i * c, min (real i * c + c) d)"
  by (simp add: windows_def arange_def)

lemma windows_upt:
  "windows E d c =
     map (\<lambda>i. (real i * c, min (real i * c + c) d)) [0..<nat \<lceil>float_div E d c\<rceil>]"
  by (simp add: windows_def arange_def)

lemma windows_clamped: "list_all (\<lambda>w. snd w \<le> d) (windows E d c)"
  by (simp add: windows_def list_all_iff)


subsection \<open>The times handed to the segment loop\<close>

text \<open>
  Whatever the collaborators do, the non-silent times of a completed analysis are window
  starts in strictly increasing order: the classification keeps the order of the analysis.
\<close>

lemma classify_samples:
  "classify (concat (map (sample E) ws)) th = map fst (filter (loud E th) ws)"
proof (induction ws)
  case Nil
  show ?case by (simp add: classify_def)
next
  case (Cons w ws)
  have "classify (sample E w @ concat (map (sample E) ws)) th
          = classify (sample E w) th @ classify (concat (map (sample E) ws)) th"
    by (simp add: classify_def)
  moreover have "classify (sample E w) th = (if loud E th w then [fst w] else [])"
    by (simp add: classify_def sample_def loud_def split: sum.splits option.splits)
  ultimately show ?case using Cons.IH by simp
qed

lemma analysis_times_increasing:
  assumes "0 < c" "analysis_phase E c d s = (s', Inr audio_chunks)"
  shows "\<exists>ks. sorted_wrt (<) ks \<and> classify audio_chunks th = exact_grid c ks \<and>
           sorted_wrt (<) (classify audio_chunks th)"
proof -
  define g where "g = (\<lambda>i. (real i * c, min (real i * c + c) d))"
  define n where "n = nat \<lceil>float_div E d c\<rceil>"
  define ks where "ks = filter (loud E th \<circ> g) [0..<n]"
  have "audio_chunks = concat (map (sample E) (windows E d c))"
    using assms(2) by (rule analysis_phase_chunks)
  then have "classify audio_chunks th = map fst (filter (loud E th) (windows E d c))"
    by (simp only: classify_samples)
  also have "\<dots> = map fst (filter (loud E th) (map g [0..<n]))"
    by (simp only: windows_upt g_def n_def)
  also have "\<dots> = map (fst \<circ> g) ks"
    by (simp add: ks_def filter_map)
  also have "\<dots> = exact_grid c ks"
    by (simp add: exact_grid_def g_def comp_def)
  finally have eq: "classify audio_chunks th = exact_grid c ks" .
  have "sorted_wrt (<) [0..<n]" by simp
  then have srt: "sorted_wrt (<) ks" unfolding ks_def by (rule sorted_wrt_filter)
  have "sorted_wrt (\<lambda>j k. real j * c < real k * c) ks"
    using assms(1) by (intro sorted_wrt_mono_rel [OF _ srt]) simp
  then have "sorted_wrt (<) (exact_grid c ks)"
    by (simp add: exact_grid_def sorted_wrt_map)
  then show ?thesis using srt eq by auto
qed

section \<open>The run\<close>


subsection \<open>Shape of every run\<close>

lemma clips_phase_nonempty: "clips_phase E c d ns = Inr clips \<Longrightarrow> clips \<noteq> []"
proof -
  assume a: "clips_phase E c d ns = Inr clips"
  then obtain t0 rest where ns: "ns = t0 # rest"
    by (cases ns) (simp_all add: clips_phase_def build_segments_def)
  obtain e more where "segment_loop c d t0 t0 rest [] = (max 0 (t0 - c), e) # more"
    using segment_loop_first by blast
  then show ?thesis
    using a by (auto simp: clips_phase_def build_segments_def ns split: option.splits)
qed

lemma save_phase_result:
  assumes "clips \<noteq> []" "save_phase P E clips s = (s', r)"
  shows "(\<exists>e. r = Inl e \<and> media_closed s' = media_closed s \<and> output_file s' = output_file s \<and>
             media_opened s' = media_opened s \<and>
            (events s' = events s \<or> events s' = events s @ [Status (saving_status (input_path P))])) \<or>
         (r = Inr (output_path_of (path_seps E) (input_path P)) \<and> media_closed s' \<and>
            media_opened s' = media_opened s \<and>
            output_file s' = Some (output_path_of (path_seps E) (input_path P)) \<and>
            events s' = events s @ [Status (saving_status (input_path P)), Progress 100])"
  using assms
  by (auto simp: save_phase_def Let_def emit_def saving_status_def split: option.splits)

lemma good_values_Nil: "good_values []"
  by (simp add: good_values_def)

lemma detect_and_save_shape:
  assumes ev: "events s = [Status ''Loading media...'', Progress 10, Status ''Analyzing audio...''] @ map Progress vs"
    and vs: "good_values vs"
    and fl: "media_opened s" "\<not> media_closed s" "output_file s = None"
  shows "body_shape P E (detect_and_save P E c d audio_chunks s)"
proof -
  define s5 where "s5 = emit (Status ''Creating clips...'') (emit (Progress 50)
      (emit (Status ''Detecting silent parts...'') s))"
  define mid where "mid = events s @ [Status ''Detecting silent parts...'', Progress 50, Status ''Creating clips...'']"
  have ev5: "events s5 = mid" by (simp add: s5_def emit_def mid_def)
  have fl5: "media_opened s5" "\<not> media_closed s5" "output_file s5 = None"
    using fl by (simp_all add: s5_def emit_def)
  have pm: "prefix mid (full_trace (input_path P) vs)"
    by (simp add: mid_def ev full_trace_def)
  have failed5: "failed_shape (input_path P) s5"
    using pm vs ev5 fl5 by (auto simp: failed_shape_def)
  show ?thesis
  proof (cases "classify audio_chunks (threshold P) = []")
    case True
    then have "detect_and_save P E c d audio_chunks s = (s5, Inl NoNonsilentParts)"
      by (simp add: detect_and_save_def Let_def s5_def)
    then show ?thesis using failed5 by (simp add: body_shape_def)
  next
    case nonempty: False
    show ?thesis
    proof (cases "clips_phase E c d (classify audio_chunks (threshold P))")
      case (Inl e)
      then have "detect_and_save P E c d audio_chunks s = (s5, Inl e)"
        using nonempty by (simp add: detect_and_save_def Let_def s5_def)
      then show ?thesis using failed5 by (simp add: body_shape_def)
    next
      case (Inr clips)
      define s6 where "s6 = emit (Status ''Combining clips...'') (emit (Progress 70) s5)"
      define late where "late = mid @ [Progress 70, Status ''Combining clips...'']"
      have ev6: "events s6 = late" by (simp add: s6_def emit_def ev5 late_def)
      have fl6: "media_opened s6" "\<not> media_closed s6" "output_file s6 = None"
        using fl5 by (simp_all add: s6_def emit_def)
      have rb: "detect_and_save P E c d audio_chunks s = save_phase P E clips s6"
        using nonempty Inr by (simp add: detect_and_save_def Let_def s5_def s6_def)
      obtain s7 r7 where sp: "save_phase P E clips s6 = (s7, r7)" by fastforce
      have ne: "clips \<noteq> []" using Inr by (rule clips_phase_nonempty)
      have p1: "prefix late (full_trace (input_path P) vs)"
        by (simp add: late_def mid_def ev full_trace_def)
      have p2: "prefix (late @ [Status (saving_status (input_path P))]) (full_trace (input_path P) vs)"
        by (simp add: late_def mid_def ev full_trace_def)
      have full: "late @ [Status (saving_status (input_path P)), Progress 100] = full_trace (input_path P) vs"
        by (simp add: late_def mid_def ev full_trace_def)
      from save_phase_result [OF ne sp] show ?thesis
      proof (elim disjE exE conjE)
        fix e assume "r7 = Inl e" "media_closed s7 = media_closed s6"
          "output_file s7 = output_file s6" "events s7 = events s6"
        then show ?thesis
          using rb sp fl6 ev6 p1 vs by (auto simp: failed_shape_def body_shape_def)
      next
        fix e assume "r7 = Inl e" "media_closed s7 = media_closed s6"
          "output_file s7 = output_file s6"
          "events s7 = events s6 @ [Status (saving_status (input_path P))]"
        then show ?thesis
          using rb sp fl6 ev6 p2 vs by (auto simp: failed_shape_def body_shape_def)
      next
        assume "r7 = Inr (output_path_of (path_seps E) (input_path P))" "media_closed s7"
          "media_opened s7 = media_opened s6"
          "output_file s7 = Some (output_path_of (path_seps E) (input_path P))"
          "events s7 = events s6 @ [Status (saving_status (input_path P)), Progress 100]"
        then show ?thesis
          using rb sp fl6 ev6 full vs by (auto simp: finished_shape_def body_shape_def)
      qed
    qed
  qed
qed

lemma run_body_shape: "body_shape P E (run_body P E)"
proof (cases "open_clip E (input_path P)")
  case (Inl msg)
  have "prefix [Status ''Loading media...''] (full_trace (input_path P) [])"
    by (simp add: full_trace_def)
  then show ?thesis
    using Inl good_values_Nil
    by (auto simp: run_body_def emit_def initial_def failed_shape_def body_shape_def)
next
  case (Inr m)
  show ?thesis
  proof (cases "\<not> is_audio_only (input_path P) \<and> \<not> has_audio m")
    case True
    have "prefix [Status ''Loading media...''] (full_trace (input_path P) [])"
      by (simp add: full_trace_def)
    then show ?thesis
      using Inr True good_values_Nil
      by (auto simp: run_body_def emit_def initial_def failed_shape_def body_shape_def)
  next
    case False
    define s2 where "s2 = emit (Status ''Analyzing audio...'') (emit (Progress 10)
        ((emit (Status ''Loading media...'') initial)\<lparr>media_opened := True\<rparr>))"
    define c where "c = chunk_duration P"
    define d where "d = duration m"
    have ev2: "events s2 = [Status ''Loading media...'', Progress 10, Status ''Analyzing audio...'']"
      and fl2: "media_opened s2" "\<not> media_closed s2" "output_file s2 = None"
      by (simp_all add: s2_def emit_def initial_def)
    obtain s3 r3 where a: "analysis_phase E c d s2 = (s3, r3)" by fastforce
    from analysis_phase_state [OF a] obtain vs where
      s3: "events s3 = events s2 @ map Progress vs" "media_opened s3 = media_opened s2"
        "media_closed s3 = media_closed s2" "output_file s3 = output_file s2"
      and vs: "good_values vs"
      by (auto simp: good_values_def)
    have ev3: "events s3 = [Status ''Loading media...'', Progress 10, Status ''Analyzing audio...''] @ map Progress vs"
      by (simp add: s3 ev2)
    have fl3: "media_opened s3" "\<not> media_closed s3" "output_file s3 = None"
      using fl2 by (simp_all add: s3)
    have body: "run_body P E =
      (case r3 of Inl e \<Rightarrow> (s3, Inl e)
       | Inr audio_chunks \<Rightarrow> detect_and_save P E c d audio_chunks s3)"
      using Inr False a
      by (auto simp: run_body_def Let_def s2_def [symmetric] c_def [symmetric] d_def [symmetric])
    show ?thesis
    proof (cases r3)
      case (Inl e)
      have "prefix (events s3) (full_trace (input_path P) vs)"
        by (simp add: ev3 full_trace_def)
      then show ?thesis
        using body Inl vs fl3 by (auto simp: failed_shape_def body_shape_def)
    next
      case (Inr audio_chunks)
      then show ?thesis
        using body detect_and_save_shape [OF ev3 vs fl3] by simp
    qed
  qed
qed

lemma full_trace_quiet: "filter is_terminal (full_trace p vs) = []"
  by (simp add: full_trace_def filter_empty_conv image_iff)

lemma progress_values_append: "progress_values (xs @ ys) = progress_values xs @ progress_values ys"
  by (simp add: progress_values_def)

lemma progress_values_map: "progress_values (map Progress vs) = vs"
  by (induction vs) (simp_all add: progress_values_def)

lemma progress_values_full: "progress_values (full_trace p vs) = 10 # vs @ [50, 70, 100]"
proof -
  have "progress_values [Status a, Progress 10, Status b] = [10]"
    "progress_values [Status x, Progress 50, Status y, Progress 70, Status z, Status w, Progress 100]
       = [50, 70, 100]" for a b x y z w
    by (simp_all add: progress_values_def)
  then show ?thesis
    by (simp only: full_trace_def progress_values_append progress_values_map) simp
qed

lemma sorted_full: "good_values vs \<Longrightarrow> sorted (10 # vs @ [50, 70, 100])"
  by (fastforce simp: good_values_def sorted_append list_all_iff)

lemma prefix_quiet:
  assumes "prefix xs (full_trace p vs)" "good_values vs"
  shows "filter is_terminal xs = []" "sorted (progress_values xs)"
proof -
  obtain zs where zs: "full_trace p vs = xs @ zs" using assms(1) by (auto simp: prefix_def)
  have "filter is_terminal (xs @ zs) = []" using full_trace_quiet [of p vs] by (simp add: zs)
  then show "filter is_terminal xs = []" by simp
  have "sorted (progress_values (xs @ zs))"
    using sorted_full [OF assms(2)] progress_values_full [of p vs] by (simp add: zs)
  then show "sorted (progress_values xs)"
    by (simp add: progress_values_append sorted_append)
qed

lemma progress_values_terminal:
  "is_terminal e \<Longrightarrow> progress_values (xs @ [e]) = progress_values xs"
  by (cases e) (simp_all add: progress_values_def)

subsection \<open>The windows a run analyses\<close>

lemma save_phase_events: "\<exists>tail. events (fst (save_phase P E clips s)) = events s @ tail"
  by (simp add: save_phase_def Let_def emit_def split: option.splits)

lemma save_phase_analysed: "analysed (fst (save_phase P E clips s)) = analysed s"
  by (simp add: save_phase_def Let_def emit_def split: option.splits)

lemma detect_and_save_analysed:
  "analysed (fst (detect_and_save P E c d audio_chunks s)) = analysed s"
  by (simp add: detect_and_save_def Let_def emit_def save_phase_analysed split: sum.splits)

lemma detect_and_save_events:
  "\<exists>tail. events (fst (detect_and_save P E c d audio_chunks s)) =
     events s @ Status ''Detecting silent parts...'' # tail"
proof -
  define s2 where "s2 = emit (Status ''Creating clips...'') (emit (Progress 50)
      (emit (Status ''Detecting silent parts...'') s))"
  have ev2: "events s2 = events s @ Status ''Detecting silent parts...'' #
      [Progress 50, Status ''Creating clips...'']"
    by (simp add: s2_def emit_def)
  define s3 where "s3 = emit (Status ''Combining clips...'') (emit (Progress 70) s2)"
  have ev3: "events s3 = events s @ Status ''Detecting silent parts...'' #
      [Progress 50, Status ''Creating clips...'', Progress 70, Status ''Combining clips...'']"
    by (simp add: s3_def emit_def ev2)
  have "\<exists>tail. events (fst (save_phase P E clips s3)) =
      events s @ Status ''Detecting silent parts...'' # tail" for clips
    using save_phase_events [of P E clips s3] by (auto simp: ev3)
  then show ?thesis
    using ev2
    by (auto simp: detect_and_save_def Let_def s2_def [symmetric] s3_def [symmetric]
        split: sum.splits)
qed

text \<open>
  After the media is opened the windows a run analyses are those of its analysis phase, and
  the run goes on to the detection of silent parts exactly when that phase ends without an
  exception.
\<close>

lemma run_after_open:
  assumes "open_clip E (input_path P) = Inr m" "is_audio_only (input_path P) \<or> has_audio m"
  shows "\<exists>s s' r. analysed s = [] \<and>
           analysis_phase E (chunk_duration P) (duration m) s = (s', r) \<and>
           analysed (run P E) = analysed s' \<and>
           ((\<exists>audio_chunks. r = Inr audio_chunks) =
            (Status ''Detecting silent parts...'' \<in> set (events (run P E))))"
proof -
  define s2 where "s2 = emit (Status ''Analyzing audio...'') (emit (Progress 10)
      ((emit (Status ''Loading media...'') initial)\<lparr>media_opened := True\<rparr>))"
  define c where "c = chunk_duration P"
  define d where "d = duration m"
  have ev2: "events s2 = [Status ''Loading media...'', Progress 10, Status ''Analyzing audio...'']"
    and an2: "analysed s2 = []"
    by (simp_all add: s2_def emit_def initial_def)
  obtain s3 r3 where a: "analysis_phase E c d s2 = (s3, r3)" by fastforce
  from analysis_phase_state [OF a] obtain vs where
    ev3: "events s3 = events s2 @ map Progress vs"
    by auto
  have body: "run_body P E =
    (case r3 of Inl e \<Rightarrow> (s3, Inl e)
     | Inr audio_chunks \<Rightarrow> detect_and_save P E c d audio_chunks s3)"
    using assms a
    by (auto simp: run_body_def Let_def s2_def [symmetric] c_def [symmetric] d_def [symmetric])
  have quiet: "Status ''Detecting silent parts...'' \<notin> set (events s3)"
    by (auto simp: ev3 ev2)
  have "analysed (run P E) = analysed s3 \<and>
      ((\<exists>audio_chunks. r3 = Inr audio_chunks) =
       (Status ''Detecting silent parts...'' \<in> set (events (run P E))))"
  proof (cases r3)
    case (Inl e)
    then have "run P E = emit (Error e) s3" using body by (simp add: run_def)
    then show ?thesis using Inl quiet by (simp add: emit_def)
  next
    case (Inr audio_chunks)
    obtain s4 r4 where ds: "detect_and_save P E c d audio_chunks s3 = (s4, r4)" by fastforce
    have an4: "analysed s4 = analysed s3"
      using detect_and_save_analysed [of P E c d audio_chunks s3] by (simp add: ds)
    obtain tail where ev4: "events s4 = events s3 @ Status ''Detecting silent parts...'' # tail"
      using detect_and_save_events [of P E c d audio_chunks s3] by (auto simp: ds)
    have "analysed (run P E) = analysed s4 \<and>
        Status ''Detecting silent parts...'' \<in> set (events (run P E))"
      using body Inr ds ev4 by (cases r4) (simp_all add: run_def emit_def)
    then show ?thesis using Inr an4 by simp
  qed
  then show ?thesis using an2 a by (auto simp: c_def d_def)
qed

text \<open>
  Claim C5, as amended: in every run that gets past the analysis, the number of windows
  analysed is the ceiling of \<open>q\<close>, the quotient \<open>duration / chunk_duration\<close> that line 45
  and \<open>np.arange\<close> compute, not its floor \<open>chunk_count\<close>. The windows analysed are the
  windows of the loop in their order, and each ends at the duration at the latest.
\<close>

theorem C5_window_count:
  assumes "open_clip E (input_path P) = Inr m" "is_audio_only (input_path P) \<or> has_audio m"
    and "Status ''Detecting silent parts...'' \<in> set (events (run P E))"
  shows "length (analysed (run P E)) = nat \<lceil>float_div E (duration m) (chunk_duration P)\<rceil> \<and>
         analysed (run P E) = windows E (duration m) (chunk_duration P) \<and>
         list_all (\<lambda>w. snd w \<le> duration m) (analysed (run P E))"
proof -
  from run_after_open [OF assms(1,2)] obtain s s' r where
    r: "analysed s = []" "analysis_phase E (chunk_duration P) (duration m) s = (s', r)"
      "analysed (run P E) = analysed s'" "\<exists>audio_chunks. r = Inr audio_chunks"
    using assms(3) by blast
  have "chunk_duration P \<noteq> 0"
    using r(2,4) by (auto simp: analysis_phase_def split: if_splits)
  from analysis_phase_analysed [OF this r(2)] r(1,4)
  have "analysed s' = windows E (duration m) (chunk_duration P)" by auto
  then show ?thesis
    using r(3) length_windows [of E "duration m" "chunk_duration P"]
      windows_clamped [of "duration m" E "chunk_duration P"]
    by simp
qed

theorem C5_window_count_witness:
  "open_clip (clip_env (5 / 16) silence) (input_path wav_eighth) =
     Inr \<lparr>duration = 5 / 16, has_audio = True\<rparr> \<and>
   is_audio_only (input_path wav_eighth) \<and>
   Status ''Detecting silent parts...'' \<in> set (events (run wav_eighth (clip_env (5 / 16) silence))) \<and>
   float_div (clip_env (5 / 16) silence) (5 / 16) (chunk_duration wav_eighth) = 5 / 2 \<and>
   length (analysed (run wav_eighth (clip_env (5 / 16) silence))) = 3 \<and>
   analysed (run wav_eighth (clip_env (5 / 16) silence)) =
     [(0, 1 / 8), (1 / 8, 1 / 4), (1 / 4, 5 / 16)]"
proof -
  have o: "open_clip (clip_env (5 / 16) silence) (input_path wav_eighth) =
     Inr \<lparr>duration = 5 / 16, has_audio = True\<rparr>"
    by (simp add: clip_env_def)
  have a: "is_audio_only (input_path wav_eighth) \<or> has_audio \<lparr>duration = 5 / 16, has_audio = True\<rparr>"
    by simp
  have au: "is_audio_only (input_path wav_eighth)"
    by code_simp
  have e: "Status ''Detecting silent parts...'' \<in>
      set (events (run wav_eighth (clip_env (5 / 16) silence)))"
    by code_simp
  have w: "analysed (run wav_eighth (clip_env (5 / 16) silence)) =
     [(0, 1 / 8), (1 / 8, 1 / 4), (1 / 4, 5 / 16)]"
    by code_simp
  have q: "float_div (clip_env (5 / 16) silence) (5 / 16) (chunk_duration wav_eighth) = 5 / 2"
    by (simp add: clip_env_def wav_eighth_def)
  have l: "length (analysed (run wav_eighth (clip_env (5 / 16) silence))) = 3"
    by (simp add: w)
  from C5_window_count [OF o a e]
  have "analysed (run wav_eighth (clip_env (5 / 16) silence)) =
      windows (clip_env (5 / 16) silence) (duration \<lparr>duration = 5 / 16, has_audio = True\<rparr>)
        (chunk_duration wav_eighth)"
    by blast
  then show ?thesis
    using o au e q l w by blast
qed

text \<open>
  Five sixteenths of a second in chunks of an eighth, all of them doubles: three windows
  are analysed, the last one shorter, where the floor of the quotient, and
  \<open>chunk_count\<close>, is two.
\<close>

theorem C5_floor_counterexample:
  "length (analysed (run wav_eighth (clip_env (5 / 16) silence))) = 3 \<and>
   \<lfloor>(5 / 16) / (1 / 8) :: real\<rfloor> = 2 \<and>
   py_int (float_div (clip_env (5 / 16) silence) (5 / 16) (chunk_duration wav_eighth)) = 2 \<and>
   int (length (analysed (run wav_eighth (clip_env (5 / 16) silence)))) \<noteq>
     \<lfloor>(5 / 16) / (1 / 8) :: real\<rfloor>"
proof -
  have "length (analysed (run wav_eighth (clip_env (5 / 16) silence))) = 3"
    by code_simp
  moreover have "\<lfloor>(5 / 16) / (1 / 8) :: real\<rfloor> = 2"
    by (simp add: floor_eq_iff)
  moreover have "py_int (float_div (clip_env (5 / 16) silence) (5 / 16) (chunk_duration wav_eighth)) = 2"
    by (simp add: clip_env_def wav_eighth_def py_int_def floor_eq_iff)
  ultimately show ?thesis by simp
qed



text \<open>
  On such media \<open>chunk_count\<close> is 0, and line 55 divides by it after the first window: the
  analysis ends there, whatever the level of the window.
\<close>

lemma short_media_analysis:
  assumes "0 < d" "d < c" "0 < float_div E d c" "float_div E d c < 1"
  shows "analysis_phase E c d s =
           (s\<lparr>analysed := analysed s @ [(0, d)]\<rparr>,
            Inl (case chunk_level E 0 d of
                   Inl msg \<Rightarrow> ExternalError msg | Inr chunk \<Rightarrow> ZeroDivisionError))"
proof -
  have "\<lceil>float_div E d c\<rceil> = 1" "\<lfloor>float_div E d c\<rfloor> = 0"
    using assms(3,4) by (simp_all add: ceiling_eq_iff floor_eq_iff)
  then have "arange E d c = [0]" "py_int (float_div E d c) = 0"
    using assms(3) by (simp_all add: arange_def py_int_def)
  then show ?thesis
    using assms(1,2) by (simp add: analysis_phase_def enumerate_simps split: sum.splits)
qed


subsection \<open>Events\<close>

text \<open>
  Claim C8: in every run the progress values are non-decreasing, exactly one terminal event
  (finished or error) is emitted, and it is the last event; on success the progress values
  are 10, the analysis values between 10 and 40, then 50, 70 and 100.
\<close>

theorem C8_progress_and_terminal_event:
  "sorted (progress_values (events (run P E))) \<and>
   length (filter is_terminal (events (run P E))) = 1 \<and>
   is_terminal (last (events (run P E))) \<and>
   (\<forall>out. last (events (run P E)) = Finished out \<longrightarrow>
      (\<exists>vs. sorted vs \<and> list_all (\<lambda>v. 10 \<le> v \<and> v \<le> 40) vs \<and>
            progress_values (events (run P E)) = 10 # vs @ [50, 70, 100]))"
proof -
  obtain s r where sr: "run_body P E = (s, r)" by fastforce
  have shape: "body_shape P E (s, r)" using run_body_shape [of P E] by (simp add: sr)
  show ?thesis
  proof (cases r)
    case (Inl e)
    then obtain vs where vs: "good_values vs" "prefix (events s) (full_trace (input_path P) vs)"
      using shape by (auto simp: body_shape_def failed_shape_def)
    have ev: "events (run P E) = events s @ [Error e]"
      by (simp add: run_def sr Inl emit_def)
    show ?thesis
      using prefix_quiet [OF vs(2) vs(1)] by (simp add: ev progress_values_terminal)
  next
    case (Inr out)
    then obtain vs where vs: "good_values vs" "events s = full_trace (input_path P) vs"
      using shape by (auto simp: body_shape_def finished_shape_def)
    have ev: "events (run P E) = full_trace (input_path P) vs @ [Finished out]"
      by (simp add: run_def sr Inr emit_def vs(2))
    have "progress_values (events (run P E)) = 10 # vs @ [50, 70, 100]"
      by (simp add: ev progress_values_terminal progress_values_full)
    moreover have "sorted (10 # vs @ [50, 70, 100])" using vs(1) by (rule sorted_full)
    moreover have "sorted vs" "list_all (\<lambda>v. 10 \<le> v \<and> v \<le> 40) vs"
      using vs(1) by (simp_all add: good_values_def)
    ultimately show ?thesis
      using full_trace_quiet [of "input_path P" vs] by (auto simp: ev)
  qed
qed

theorem C8_progress_and_terminal_event_witness:
  "last (events (run wav_eighth (clip_env (1 / 2) burst))) = Finished ''foo_no_silence.wav'' \<and>
   progress_values (events (run wav_eighth (clip_env (1 / 2) burst))) =
     [10, 10, 17, 25, 32, 50, 70, 100] \<and>
   sorted (progress_values (events (run wav_eighth (clip_env (1 / 2) burst)))) \<and>
   length (filter is_terminal (events (run wav_eighth (clip_env (1 / 2) burst)))) = 1"
proof -
  have ev: "events (run wav_eighth (clip_env (1 / 2) burst)) =
    [Status ''Loading media...'', Progress 10, Status ''Analyzing audio...'',
     Progress 10, Progress 17, Progress 25, Progress 32,
     Status ''Detecting silent parts...'', Progress 50, Status ''Creating clips...'',
     Progress 70, Status ''Combining clips...'', Status ''Saving audio...'', Progress 100,
     Finished ''foo_no_silence.wav'']"
    by code_simp
  show ?thesis
    using C8_progress_and_terminal_event [of wav_eighth "clip_env (1 / 2) burst"]
    by (simp add: ev progress_values_def)
qed

subsection \<open>Closing the media\<close>

text \<open>
  \<open>media.close()\<close> is line 123, inside the \<open>try\<close> block and after the save: it runs in
  the runs that end with the result event and in no other.
\<close>

lemma closed_only_on_success:
  "media_closed (run P E) = (\<exists>out. last (events (run P E)) = Finished out) \<and>
   (\<not> media_closed (run P E)) = (\<exists>e. last (events (run P E)) = Error e)"
proof -
  obtain s r where sr: "run_body P E = (s, r)" by fastforce
  have shape: "body_shape P E (s, r)" using run_body_shape [of P E] by (simp add: sr)
  show ?thesis
  proof (cases r)
    case (Inl e)
    then have "\<not> media_closed s" using shape by (simp add: body_shape_def failed_shape_def)
    then show ?thesis by (simp add: run_def sr Inl emit_def)
  next
    case (Inr out)
    then have "media_closed s" using shape by (simp add: body_shape_def finished_shape_def)
    then show ?thesis by (simp add: run_def sr Inr emit_def)
  qed
qed

text \<open>
  Claim C9 says that the media is closed on every exit path of a run, success or failure.
  On a second of silence the media is opened, line 69 raises, the handler emits the
  error, and the run ends with the media still open: only the success path reaches the
  \<open>close\<close> of line 123.
\<close>

theorem C9_failed_run_leaves_media_open:
  "media_opened (run wav_eighth (clip_env 1 silence)) \<and>
   \<not> media_closed (run wav_eighth (clip_env 1 silence)) \<and>
   last (events (run wav_eighth (clip_env 1 silence))) = Error NoNonsilentParts"
  by code_simp

subsection \<open>The output path\<close>

lemma splitext_parts: "fst (splitext seps p) @ snd (splitext seps p) = p"
  by (simp add: splitext_def Let_def)

text \<open>
  Claim C6: on success the output path is the input path without its extension, then
  \<open>_no_silence\<close>, then the input's own extension for audio-only input and \<open>.mp4\<close>
  otherwise; the file written is at that path.
\<close>

theorem C6_output_path:
  assumes "last (events (run P E)) = Finished out"
  shows "out = fst (splitext (path_seps E) (input_path P)) @ ''_no_silence'' @
           (if is_audio_only (input_path P) then snd (splitext (path_seps E) (input_path P))
            else ''.mp4'') \<and>
         output_file (run P E) = Some out"
proof -
  obtain s r where sr: "run_body P E = (s, r)" by fastforce
  have shape: "body_shape P E (s, r)" using run_body_shape [of P E] by (simp add: sr)
  show ?thesis
  proof (cases r)
    case (Inl e)
    then show ?thesis using assms by (simp add: run_def sr emit_def)
  next
    case (Inr out')
    then have "out' = out" using assms by (simp add: run_def sr emit_def)
    then show ?thesis
      using shape Inr
      by (simp add: body_shape_def finished_shape_def run_def sr emit_def output_path_of_def)
  qed
qed

theorem C6_output_path_witness:
  "last (events (run mov_eighth (clip_env (1 / 2) burst))) = Finished ''foo_no_silence.mp4'' \<and>
   output_file (run mov_eighth (clip_env (1 / 2) burst)) = Some ''foo_no_silence.mp4'' \<and>
   \<not> is_audio_only ''foo.mov'' \<and> splitext ''/'' ''foo.mov'' = (''foo'', ''.mov'') \<and>
   last (events (run wav_eighth (clip_env (1 / 2) burst))) = Finished ''foo_no_silence.wav'' \<and>
   is_audio_only ''foo.wav'' \<and> splitext ''/'' ''foo.wav'' = (''foo'', ''.wav'')"
proof -
  have mov: "last (events (run mov_eighth (clip_env (1 / 2) burst))) = Finished ''foo_no_silence.mp4''"
    by code_simp
  have wav: "last (events (run wav_eighth (clip_env (1 / 2) burst))) = Finished ''foo_no_silence.wav''"
    by code_simp
  have paths: "\<not> is_audio_only ''foo.mov''" "splitext ''/'' ''foo.mov'' = (''foo'', ''.mov'')"
    "is_audio_only ''foo.wav''" "splitext ''/'' ''foo.wav'' = (''foo'', ''.wav'')"
    by code_simp+
  have "input_path mov_eighth = ''foo.mov''" "path_seps (clip_env (1 / 2) burst) = ''/''"
    by (simp_all add: mov_eighth_def clip_env_def)
  then show ?thesis
    using C6_output_path [OF mov] mov wav paths by simp
qed

subsection \<open>Silent audio\<close>

text \<open>
  When the analysis completes and no level exceeds the threshold, nothing is classified as
  non-silent and the run fails with \<open>NoNonsilentParts\<close> before any clip is made.
\<close>

lemma all_silent_after_analysis:
  assumes "list_all (\<lambda>(t, volume). volume \<le> threshold P) audio_chunks"
  shows "classify audio_chunks (threshold P) = []"
    and "\<exists>s'. detect_and_save P E c d audio_chunks s = (s', Inl NoNonsilentParts) \<and>
           output_file s' = output_file s"
proof -
  show e: "classify audio_chunks (threshold P) = []"
    using assms by (auto simp: classify_def filter_empty_conv list_all_iff)
  show "\<exists>s'. detect_and_save P E c d audio_chunks s = (s', Inl NoNonsilentParts) \<and>
           output_file s' = output_file s"
    by (simp add: detect_and_save_def Let_def e emit_def)
qed

text \<open>
  Claim C4 says that a run whose analysed windows are all at or below the threshold ends
  with the error \<open>NoNonsilentParts\<close>. For a silent clip shorter than one chunk it does
  not: its one window is analysed and is silent, and the run ends with
  \<open>ZeroDivisionError\<close>, from the division by \<open>chunk_count = 0\<close> at line 55.
\<close>

theorem C4_short_silent_media_divides_by_zero:
  "list_all (\<lambda>w. silence (fst w) \<le> threshold wav_params)
     (windows (clip_env (1 / 20) silence) (1 / 20) (1 / 10)) \<and>
   run wav_params (clip_env (1 / 20) silence) =
     \<lparr>events = [Status ''Loading media...'', Progress 10, Status ''Analyzing audio...'',
                Error ZeroDivisionError],
      analysed = [(0, 1 / 20)],
      media_opened = True, media_closed = False, output_file = None\<rparr>"
  by code_simp

end
